theory Spec2Isabelle
  imports Main "HOL-Library.Sublist"
begin

section \<open>Strings of the source language\<close>

text \<open>
  The program is JavaScript (\<^verbatim>\<open>src/src/App.jsx\<close>). A JavaScript string is a sequence of
  UTF-16 code units; the model uses \<^typ>\<open>string\<close>, a list of 8-bit characters, and so covers
  the input texts whose code units are all below 256 (ASCII and Latin-1). On that range the
  built-in string operations used by the parser are as follows.
\<close>

abbreviation dquote :: char where
  "dquote \<equiv> CHR 0x22"

abbreviation newline :: char where
  "newline \<equiv> CHR 0x0A"

abbreviation comma :: char where
  "comma \<equiv> CHR 0x2C"

text \<open>
  White space and line terminators removed by \<^verbatim>\<open>String.prototype.trim\<close>: tab, line feed,
  vertical tab, form feed, carriage return, space and no-break space (the others lie above 255).
\<close>

definition js_whitespace :: "char \<Rightarrow> bool" where
  "js_whitespace c =
     (c = CHR 0x09 \<or> c = CHR 0x0A \<or> c = CHR 0x0B \<or> c = CHR 0x0C \<or> c = CHR 0x0D
      \<or> c = CHR 0x20 \<or> c = CHR 0xA0)"

text \<open>\<^verbatim>\<open>s.trim()\<close>\<close>

definition trim :: "string \<Rightarrow> string" where
  "trim s = rev (dropWhile js_whitespace (rev (dropWhile js_whitespace s)))"

text \<open>
  \<^verbatim>\<open>s.toLowerCase()\<close>: below 256 the letters with a lower-case form are A to Z and the
  Latin-1 capitals 0xC0 to 0xDE without the multiplication sign 0xD7; each moves up by 32.
\<close>

definition toLowerCase_char :: "char \<Rightarrow> char" where
  "toLowerCase_char c =
     (let n = (of_char c :: nat)
      in if (65 \<le> n \<and> n \<le> 90) \<or> (192 \<le> n \<and> n \<le> 214) \<or> (216 \<le> n \<and> n \<le> 222)
         then char_of (n + 32) else c)"

definition toLowerCase :: "string \<Rightarrow> string" where
  "toLowerCase s = map toLowerCase_char s"

text \<open>
  \<^verbatim>\<open>s.split(sep)\<close> for a one-character separator. The result always has at least one
  element: the empty string splits into the one-element array holding the empty string.
\<close>

fun split :: "char \<Rightarrow> string \<Rightarrow> string list" where
  "split sep [] = [[]]"
| "split sep (c # cs) =
     (if c = sep then [] # split sep cs
      else (case split sep cs of
              [] \<Rightarrow> [[c]]
            | x # xs \<Rightarrow> (c # x) # xs))"

text \<open>\<^verbatim>\<open>s.replace(/"/g, '')\<close>: every double quote is removed.\<close>

definition remove_quotes :: "string \<Rightarrow> string" where
  "remove_quotes s = filter (\<lambda>c. c \<noteq> dquote) s"

text \<open>\<^verbatim>\<open>xs.findIndex(p)\<close>: the index of the first element satisfying \<open>p\<close>, or \<open>-1\<close>.\<close>

fun findIndex :: "('a \<Rightarrow> bool) \<Rightarrow> 'a list \<Rightarrow> int" where
  "findIndex p [] = - 1"
| "findIndex p (x # xs) =
     (if p x then 0
      else (let r = findIndex p xs in if r = - 1 then - 1 else r + 1))"

text \<open>\<^verbatim>\<open>xs.join(sep)\<close> on an array of strings.\<close>

fun join :: "string \<Rightarrow> string list \<Rightarrow> string" where
  "join sep [] = []"
| "join sep [x] = x"
| "join sep (x # y # ys) = x @ sep @ join sep (y # ys)"

section \<open>The parser\<close>

text \<open>
  Both failures of \<^verbatim>\<open>parseCSV\<close> are \<^verbatim>\<open>throw new Error(message)\<close>; the message is the only
  thing that tells them apart.
\<close>

datatype js_error = Error string

text \<open>\<^verbatim>\<open>err.message\<close>\<close>

fun message :: "js_error \<Rightarrow> string" where
  "message (Error m) = m"

definition EmptyInputError :: js_error where
  "EmptyInputError = Error ''CSV file is empty''"

definition MissingColumnsError :: js_error where
  "MissingColumnsError =
     Error (''CSV must contain '' @ [dquote] @ ''username'' @ [dquote] @ '' and ''
            @ [dquote] @ ''displayName'' @ [dquote] @ '' columns'')"

record csv_record =
  username :: string
  displayName :: string

text \<open>
  \<^verbatim>\<open>parseCSVLine\<close>: the loop over the characters of the line, with its three variables
  \<^verbatim>\<open>result\<close>, \<^verbatim>\<open>current\<close> and \<^verbatim>\<open>inQuotes\<close>; after the loop \<^verbatim>\<open>current\<close> is pushed.
\<close>

fun parseCSVLine_loop :: "string \<Rightarrow> string list \<Rightarrow> string \<Rightarrow> bool \<Rightarrow> string list" where
  "parseCSVLine_loop [] result current inQuotes = result @ [current]"
| "parseCSVLine_loop (char # rest) result current inQuotes =
     (if char = dquote then parseCSVLine_loop rest result current (\<not> inQuotes)
      else if char = comma \<and> \<not> inQuotes then parseCSVLine_loop rest (result @ [current]) [] inQuotes
      else parseCSVLine_loop rest result (current @ [char]) inQuotes)"

definition parseCSVLine :: "string \<Rightarrow> string list" where
  "parseCSVLine line = parseCSVLine_loop line [] [] False"

text \<open>
  The header cells:
  \<^verbatim>\<open>lines[0].toLowerCase().split(',').map(h => h.trim().replace(/"/g, ''))\<close>
\<close>

definition header_cells :: "string \<Rightarrow> string list" where
  "header_cells line0 = map (\<lambda>h. remove_quotes (trim h)) (split comma (toLowerCase line0))"

definition is_username :: "string \<Rightarrow> bool" where
  "is_username h = (h = ''username'')"

definition is_displayName :: "string \<Rightarrow> bool" where
  "is_displayName h = (h = ''displayname'' \<or> h = ''display_name'' \<or> h = ''display name'')"

text \<open>
  The loop over the data rows, \<^verbatim>\<open>for (let i = 1; i < lines.length; i++)\<close>, as a recursion
  over the lines that remain, with the array \<^verbatim>\<open>data\<close> as accumulator.
\<close>

fun parse_rows :: "int \<Rightarrow> int \<Rightarrow> string list \<Rightarrow> csv_record list \<Rightarrow> csv_record list" where
  "parse_rows usernameIndex displayNameIndex [] data = data"
| "parse_rows usernameIndex displayNameIndex (line # rest) data =
     (if trim line = [] then parse_rows usernameIndex displayNameIndex rest data
      else
        (let values = parseCSVLine line
         in if int (length values) > max usernameIndex displayNameIndex then
              (let u = remove_quotes (trim (values ! nat usernameIndex));
                   d = remove_quotes (trim (values ! nat displayNameIndex))
               in if u \<noteq> [] \<and> d \<noteq> []
                  then parse_rows usernameIndex displayNameIndex rest
                         (data @ [\<lparr>username = u, displayName = d\<rparr>])
                  else parse_rows usernameIndex displayNameIndex rest data)
            else parse_rows usernameIndex displayNameIndex rest data))"

definition parseCSV :: "string \<Rightarrow> js_error + csv_record list" where
  "parseCSV text =
     (let lines = split newline (trim text)
      in if length lines = 0 then Inl EmptyInputError
         else
           (let header = header_cells (lines ! 0);
                usernameIndex = findIndex is_username header;
                displayNameIndex = findIndex is_displayName header
            in if usernameIndex = - 1 \<or> displayNameIndex = - 1 then Inl MissingColumnsError
               else Inr (parse_rows usernameIndex displayNameIndex (drop 1 lines) [])))"

text \<open>\<^verbatim>\<open>formatOutput\<close>\<close>

definition formatOutput :: "csv_record list \<Rightarrow> string" where
  "formatOutput data =
     join ('','' @ [newline]) (map (\<lambda>row. username row @ ''@'' @ displayName row) data)"

section \<open>Notions used to state the properties\<close>

subsection \<open>Blank strings and one-sided trimming\<close>

definition blank :: "string \<Rightarrow> bool" where
  "blank s = list_all js_whitespace s"

definition ltrim :: "string \<Rightarrow> string" where
  "ltrim s = dropWhile js_whitespace s"

definition rtrim :: "string \<Rightarrow> string" where
  "rtrim s = rev (dropWhile js_whitespace (rev s))"

text \<open>A text given by its lines: the lines joined by line feeds, none holding a line feed.\<close>

definition unlines :: "string list \<Rightarrow> string" where
  "unlines ls = join [newline] ls"

definition no_newline :: "string \<Rightarrow> bool" where
  "no_newline l = (newline \<notin> set l)"

text \<open>
  What trimming a whole text does to its lines at the end: the blank lines at the end go, and
  the last line that stays loses its trailing white space.
\<close>

fun rtrim_lines :: "string list \<Rightarrow> string list" where
  "rtrim_lines [] = []"
| "rtrim_lines (l # ls) =
     (case rtrim_lines ls of
        [] \<Rightarrow> (if blank l then [] else [rtrim l])
      | l' # ls' \<Rightarrow> l # l' # ls')"

subsection \<open>The parser on a list of lines\<close>

text \<open>The body of \<^const>\<open>parseCSV\<close> after the input has been trimmed and split into lines.\<close>

definition from_lines :: "string list \<Rightarrow> js_error + csv_record list" where
  "from_lines lines =
     (let header = header_cells (lines ! 0);
          usernameIndex = findIndex is_username header;
          displayNameIndex = findIndex is_displayName header
      in if usernameIndex = - 1 \<or> displayNameIndex = - 1 then Inl MissingColumnsError
         else Inr (parse_rows usernameIndex displayNameIndex (drop 1 lines) []))"

text \<open>The records one data line contributes: none or one (the body of the loop over the rows).\<close>

definition row_records :: "int \<Rightarrow> int \<Rightarrow> string \<Rightarrow> csv_record list" where
  "row_records usernameIndex displayNameIndex line =
     (if trim line = [] then []
      else
        (let values = parseCSVLine line
         in if int (length values) > max usernameIndex displayNameIndex then
              (let u = remove_quotes (trim (values ! nat usernameIndex));
                   d = remove_quotes (trim (values ! nat displayNameIndex))
               in if u \<noteq> [] \<and> d \<noteq> [] then [\<lparr>username = u, displayName = d\<rparr>] else [])
            else []))"

text \<open>
  A malformed data row, in the words of the specification: too few fields to cover both
  required positions, or an empty value (after trimming) in either target column.
\<close>

definition malformed_row :: "nat \<Rightarrow> nat \<Rightarrow> string \<Rightarrow> bool" where
  "malformed_row ui di line =
     (let values = parseCSVLine line
      in if length values \<le> max ui di then True
         else trim (values ! ui) = [] \<or> trim (values ! di) = [])"

text \<open>The record of a row that is not malformed: the two fields by position, trimmed.\<close>

definition record_at :: "nat \<Rightarrow> nat \<Rightarrow> string \<Rightarrow> csv_record" where
  "record_at ui di line =
     \<lparr>username = trim (parseCSVLine line ! ui), displayName = trim (parseCSVLine line ! di)\<rparr>"

text \<open>The records of the rows that are not malformed, in the order of the rows.\<close>

definition valid_records :: "nat \<Rightarrow> nat \<Rightarrow> string list \<Rightarrow> csv_record list" where
  "valid_records ui di rows =
     map (record_at ui di) (filter (\<lambda>line. \<not> malformed_row ui di line) rows)"

text \<open>The line the parser reads the header from: \<^verbatim>\<open>lines[0]\<close> of the trimmed text.\<close>

definition header_line :: "string \<Rightarrow> string" where
  "header_line text = split newline (trim text) ! 0"

text \<open>A header line resolves to the positions \<open>ui\<close> and \<open>di\<close>.\<close>

definition resolves :: "string \<Rightarrow> nat \<Rightarrow> nat \<Rightarrow> bool" where
  "resolves h ui di =
     (findIndex is_username (header_cells h) = int ui
      \<and> findIndex is_displayName (header_cells h) = int di)"

subsection \<open>The header as the specification describes it\<close>

text \<open>
  The specification's step 2: tokenize line 0 with the quote-aware tokenizer, then lowercase,
  trim and de-quote each header field. (The source splits the lowercased line at every comma
  instead, see \<^const>\<open>header_cells\<close>.)
\<close>

definition spec_header_cells :: "string \<Rightarrow> string list" where
  "spec_header_cells line0 = map (\<lambda>h. remove_quotes (trim (toLowerCase h))) (parseCSVLine line0)"

text \<open>
  A raw header cell names a role when, trimmed and de-quoted, it equals the role's name up to
  the case of its letters.
\<close>

definition names_username :: "string \<Rightarrow> bool" where
  "names_username cell = (toLowerCase (remove_quotes (trim cell)) = ''username'')"

definition names_displayName :: "string \<Rightarrow> bool" where
  "names_displayName cell =
     (toLowerCase (remove_quotes (trim cell)) \<in> set [''displayname'', ''display_name'', ''display name''])"

subsection \<open>The tokenizer as the specification describes it\<close>

text \<open>
  The specification's section 4.1: a scan with an "inside quoted field" flag and a buffer,
  one rule per kind of character, and the buffer emitted at the end of the line.
\<close>

record tok_state =
  emitted :: "string list"
  buffer :: string
  inside :: bool

definition tok_step :: "tok_state \<Rightarrow> char \<Rightarrow> tok_state" where
  "tok_step st c =
     (if c = dquote then st\<lparr>inside := \<not> inside st\<rparr>
      else if c = comma then
        (if inside st then st\<lparr>buffer := buffer st @ [c]\<rparr>
         else st\<lparr>emitted := emitted st @ [buffer st], buffer := []\<rparr>)
      else st\<lparr>buffer := buffer st @ [c]\<rparr>)"

definition spec_tokenize :: "string \<Rightarrow> string list" where
  "spec_tokenize line =
     (let st = foldl tok_step \<lparr>emitted = [], buffer = [], inside = False\<rparr> line
      in emitted st @ [buffer st])"

subsection \<open>Well-formed two-column files\<close>

text \<open>
  A cell of a well-formed data row is written plainly (no comma, no double quote) or between
  double quotes (no double quote inside; commas allowed); it spans no line break and its value
  is not blank.
\<close>

datatype cell = Plain string | Quoted string

fun cell_text :: "cell \<Rightarrow> string" where
  "cell_text (Plain s) = s"
| "cell_text (Quoted s) = [dquote] @ s @ [dquote]"

fun cell_value :: "cell \<Rightarrow> string" where
  "cell_value (Plain s) = s"
| "cell_value (Quoted s) = s"

fun cell_ok :: "cell \<Rightarrow> bool" where
  "cell_ok (Plain s) = (comma \<notin> set s \<and> dquote \<notin> set s \<and> newline \<notin> set s \<and> \<not> blank s)"
| "cell_ok (Quoted s) = (dquote \<notin> set s \<and> newline \<notin> set s \<and> \<not> blank s)"

definition row_line :: "cell \<times> cell \<Rightarrow> string" where
  "row_line r = cell_text (fst r) @ [comma] @ cell_text (snd r)"

definition row_ok :: "cell \<times> cell \<Rightarrow> bool" where
  "row_ok r = (cell_ok (fst r) \<and> cell_ok (snd r))"

definition row_record :: "cell \<times> cell \<Rightarrow> csv_record" where
  "row_record r = \<lparr>username = trim (cell_value (fst r)), displayName = trim (cell_value (snd r))\<rparr>"

definition csv_text :: "(cell \<times> cell) list \<Rightarrow> string" where
  "csv_text rows = unlines (''username,displayName'' # map row_line rows)"

section \<open>Properties\<close>

subsection \<open>Characters\<close>

lemma of_char_lower_cases:
  "toLowerCase_char c = c \<or> (97 \<le> (of_char (toLowerCase_char c)::nat) \<and> of_char c + 32 = (of_char (toLowerCase_char c)::nat))"
  by (auto simp: toLowerCase_char_def Let_def)

lemma toLowerCase_char_fix:
  assumes "(of_char d :: nat) < 65"
  shows "toLowerCase_char c = d \<longleftrightarrow> c = d"
proof
  assume h: "toLowerCase_char c = d"
  from of_char_lower_cases[of c] h assms show "c = d" by auto
next
  assume "c = d" with assms show "toLowerCase_char c = d"
    by (simp add: toLowerCase_char_def Let_def)
qed

lemma lower_comma [simp]: "toLowerCase_char c = comma \<longleftrightarrow> c = comma"
  by (rule toLowerCase_char_fix) simp

lemma lower_dquote [simp]: "toLowerCase_char c = dquote \<longleftrightarrow> c = dquote"
  by (rule toLowerCase_char_fix) simp

lemma lower_newline [simp]: "toLowerCase_char c = newline \<longleftrightarrow> c = newline"
  by (rule toLowerCase_char_fix) simp

lemma lower_ws [simp]: "js_whitespace (toLowerCase_char c) \<longleftrightarrow> js_whitespace c"
proof (cases "toLowerCase_char c = c")
  case True then show ?thesis by simp
next
  case False
  then have r: "(65 \<le> (of_char c::nat) \<and> (of_char c::nat) \<le> 90) \<or> (192 \<le> (of_char c::nat) \<and> (of_char c::nat) \<le> 214) \<or> (216 \<le> (of_char c::nat) \<and> (of_char c::nat) \<le> 222)"
    by (auto simp: toLowerCase_char_def Let_def split: if_splits)
  then have a: "\<not> js_whitespace c" by (auto simp: js_whitespace_def)
  from r have "of_char (toLowerCase_char c) = (of_char c :: nat) + 32"
    by (auto simp: toLowerCase_char_def Let_def)
  with r have b: "\<not> js_whitespace (toLowerCase_char c)" by (auto simp: js_whitespace_def)
  from a b show ?thesis by simp
qed

lemma ws_not_comma [simp]: "\<not> js_whitespace comma" by (simp add: js_whitespace_def)
lemma ws_not_dquote [simp]: "\<not> js_whitespace dquote" by (simp add: js_whitespace_def)
lemma ws_newline [simp]: "js_whitespace newline" by (simp add: js_whitespace_def)

subsection \<open>Blank strings and trimming\<close>

lemma blank_Nil [simp]: "blank []" by (simp add: blank_def)
lemma blank_Cons [simp]: "blank (c # s) \<longleftrightarrow> js_whitespace c \<and> blank s" by (simp add: blank_def)
lemma blank_append [simp]: "blank (a @ b) \<longleftrightarrow> blank a \<and> blank b" by (simp add: blank_def)
lemma blank_rev [simp]: "blank (rev s) \<longleftrightarrow> blank s" by (simp add: blank_def)
lemma blank_iff: "blank s \<longleftrightarrow> (\<forall>c\<in>set s. js_whitespace c)" by (simp add: blank_def list_all_iff)

lemma blank_no_comma: "blank s \<Longrightarrow> comma \<notin> set s" by (auto simp: blank_iff)
lemma blank_no_dquote: "blank s \<Longrightarrow> dquote \<notin> set s" by (auto simp: blank_iff)


lemma trim_rtrim_ltrim: "trim s = rtrim (ltrim s)" by (simp add: trim_def rtrim_def ltrim_def)

lemma ltrim_Nil_iff [simp]: "ltrim s = [] \<longleftrightarrow> blank s" by (simp add: ltrim_def blank_iff)
lemma rtrim_Nil_iff [simp]: "rtrim s = [] \<longleftrightarrow> blank s" by (simp add: rtrim_def blank_iff)

lemma blank_ltrim [simp]: "blank (ltrim s) \<longleftrightarrow> blank s"
  unfolding ltrim_def by (induction s) auto

lemma blank_rtrim [simp]: "blank (rtrim s) \<longleftrightarrow> blank s"
  using blank_ltrim[of "rev s"] by (simp add: rtrim_def ltrim_def)

lemma trim_Nil_iff [simp]: "trim s = [] \<longleftrightarrow> blank s" by (simp add: trim_rtrim_ltrim)

lemma ltrim_append: "ltrim (a @ b) = (if blank a then ltrim b else ltrim a @ b)"
  unfolding ltrim_def by (induction a) auto

lemma rtrim_append: "rtrim (a @ b) = (if blank b then rtrim a else a @ rtrim b)"
  using ltrim_append[of "rev b" "rev a"] by (simp add: rtrim_def ltrim_def)

lemma trim_blank_append [simp]: "blank w \<Longrightarrow> trim (w @ s) = trim s"
  by (simp add: trim_rtrim_ltrim ltrim_append)

lemma blank_trim_Nil: "blank s \<Longrightarrow> rtrim (ltrim s) = []"
  by simp

lemma trim_append_blank [simp]: "blank w \<Longrightarrow> trim (s @ w) = trim s"
  by (simp add: trim_rtrim_ltrim ltrim_append rtrim_append blank_trim_Nil)

lemma ltrim_decomp: "\<exists>w. blank w \<and> s = w @ ltrim s"
  by (rule exI[of _ "takeWhile js_whitespace s"]) (auto simp: ltrim_def blank_iff dest: set_takeWhileD)

lemma rtrim_decomp: "\<exists>w. blank w \<and> s = rtrim s @ w"
proof -
  from ltrim_decomp[of "rev s"] obtain w where "blank w" "rev s = w @ ltrim (rev s)" by blast
  then have "blank (rev w)" "s = rtrim s @ rev w"
    by (simp, metis rev_append rev_rev_ident rtrim_def ltrim_def)
  then show ?thesis by blast
qed

lemma set_ltrim: "set (ltrim s) \<subseteq> set s" by (auto simp: ltrim_def dest: set_dropWhileD)
lemma set_rtrim: "set (rtrim s) \<subseteq> set s" by (auto simp: rtrim_def dest: set_dropWhileD)
lemma set_trim: "set (trim s) \<subseteq> set s" using set_ltrim set_rtrim by (fastforce simp: trim_rtrim_ltrim)

subsection \<open>Splitting and joining\<close>

lemma split_not_Nil [simp]: "split sep s \<noteq> []"
  by (induction s) (auto split: list.splits)

lemma split_Cons_other: "c \<noteq> sep \<Longrightarrow> split sep (c # cs) = (c # hd (split sep cs)) # tl (split sep cs)"
  by (cases "split sep cs") auto

lemma split_no_sep: "sep \<notin> set s \<Longrightarrow> split sep s = [s]"
  by (induction s) auto

lemma split_prefix: "sep \<notin> set w \<Longrightarrow> split sep (w @ s) = (w @ hd (split sep s)) # tl (split sep s)"
  by (induction w) (auto simp: split_Cons_other)

lemma split_append_sep: "sep \<notin> set a \<Longrightarrow> split sep (a @ sep # b) = a # split sep b"
  by (induction a) (auto)

lemma split_suffix: "sep \<notin> set w \<Longrightarrow> split sep (s @ w) = butlast (split sep s) @ [last (split sep s) @ w]"
proof (induction s)
  case Nil then show ?case by (simp add: split_no_sep)
next
  case (Cons c s)
  then have IH: "split sep (s @ w) = butlast (split sep s) @ [last (split sep s) @ w]" by simp
  show ?case
  proof (cases "c = sep")
    case True with IH show ?thesis by simp
  next
    case False
    obtain x xs where x: "split sep s = x # xs" by (cases "split sep s") auto
    have l: "split sep (c # s) = (c # x) # xs"
      using False x by (simp add: split_Cons_other del: split.simps)
    have "split sep ((c # s) @ w) = (c # hd (split sep (s @ w))) # tl (split sep (s @ w))"
      using False by (simp add: split_Cons_other del: split.simps)
    also have "\<dots> = butlast ((c # x) # xs) @ [last ((c # x) # xs) @ w]"
      unfolding IH x by (cases xs) simp_all
    finally show ?thesis unfolding l .
  qed
qed

lemma split_unlines: "ls \<noteq> [] \<Longrightarrow> \<forall>l\<in>set ls. no_newline l \<Longrightarrow> split newline (unlines ls) = ls"
proof (induction ls rule: join.induct[where ?a0.0 = "[newline]", case_names Nil One More])
  case Nil then show ?case by simp
next
  case (One x) then show ?case by (simp add: unlines_def split_no_sep no_newline_def)
next
  case (More x y ys)
  then show ?case by (simp add: unlines_def split_append_sep no_newline_def)
qed

lemma unlines_Cons: "unlines (l # ls) = (if ls = [] then l else l @ newline # unlines ls)"
  by (cases ls) (auto simp: unlines_def)

lemma unlines_split: "unlines (split newline s) = s"
proof (induction s)
  case Nil show ?case by (simp add: unlines_def)
next
  case (Cons c s)
  obtain x xs where x: "split newline s = x # xs" by (cases "split newline s") auto
  with Cons show ?case by (auto simp: unlines_Cons)
qed

lemma split_lines_no_newline: "\<forall>l\<in>set (split sep s). sep \<notin> set l"
proof (induction s)
  case Nil show ?case by simp
next
  case (Cons c s)
  obtain x xs where x: "split sep s = x # xs" by (cases "split sep s") auto
  with Cons show ?case by auto
qed

subsection \<open>The loop of the tokenizer\<close>

lemma loop_result_append:
  "parseCSVLine_loop line (r1 @ r2) current q = r1 @ parseCSVLine_loop line r2 current q"
  by (induction line arbitrary: r2 current q) simp_all

lemma loop_result: "parseCSVLine_loop line result current q = result @ parseCSVLine_loop line [] current q"
  using loop_result_append[of line result "[]" current q] by simp

lemma loop_plain:
  "comma \<notin> set s \<Longrightarrow> dquote \<notin> set s \<Longrightarrow>
   parseCSVLine_loop (s @ rest) result current q = parseCSVLine_loop rest result (current @ s) q"
  by (induction s arbitrary: current) auto

lemma loop_inside:
  "dquote \<notin> set s \<Longrightarrow>
   parseCSVLine_loop (s @ rest) result current True = parseCSVLine_loop rest result (current @ s) True"
  by (induction s arbitrary: current) auto

lemma loop_not_Nil [simp]: "parseCSVLine_loop line result current q \<noteq> []"
  by (induction line arbitrary: result current q) auto

lemma loop_suffix:
  "comma \<notin> set w \<Longrightarrow> dquote \<notin> set w \<Longrightarrow>
   parseCSVLine_loop (l @ w) result current q =
     butlast (parseCSVLine_loop l result current q) @ [last (parseCSVLine_loop l result current q) @ w]"
proof (induction l arbitrary: result current q)
  case Nil
  then show ?case using loop_plain[of w "[]" result current q] by simp
next
  case (Cons c l)
  then show ?case by simp
qed

lemma loop_no_dquote:
  "dquote \<notin> set current \<Longrightarrow> dquote \<notin> set (concat result) \<Longrightarrow>
   dquote \<notin> set (concat (parseCSVLine_loop line result current q))"
proof (induction line arbitrary: result current q)
  case Nil then show ?case by simp
next
  case (Cons c line)
  show ?case
  proof (cases "c = dquote")
    case True
    then show ?thesis using Cons.IH[of current result "\<not> q"] Cons.prems by simp
  next
    case False
    note nd = this
    show ?thesis
    proof (cases "c = comma \<and> \<not> q")
      case True
      then show ?thesis using Cons.IH[of "[]" "result @ [current]" q] Cons.prems nd by simp
    next
      case False
      then show ?thesis using Cons.IH[of "current @ [c]" result q] Cons.prems nd by auto
    qed
  qed
qed

lemma parseCSVLine_no_dquote: "f \<in> set (parseCSVLine line) \<Longrightarrow> dquote \<notin> set f"
  using loop_no_dquote[of "[]" "[]" line False] by (auto simp: parseCSVLine_def)

lemma parseCSVLine_not_Nil [simp]: "parseCSVLine line \<noteq> []"
  by (simp add: parseCSVLine_def)

lemma parseCSVLine_suffix:
  "blank w \<Longrightarrow> parseCSVLine (l @ w) = butlast (parseCSVLine l) @ [last (parseCSVLine l) @ w]"
  by (simp add: parseCSVLine_def loop_suffix blank_no_comma blank_no_dquote)

lemma parseCSVLine_blank: "blank l \<Longrightarrow> parseCSVLine l = [l]"
  using loop_plain[of l "[]" "[]" "[]" False] by (simp add: parseCSVLine_def blank_no_comma blank_no_dquote)

lemma parseCSVLine_no_quotes: "dquote \<notin> set line \<Longrightarrow> parseCSVLine line = split comma line"
proof -
  have "dquote \<notin> set line \<Longrightarrow> parseCSVLine_loop line [] current False
        = (current @ hd (split comma line)) # tl (split comma line)" for current
  proof (induction line arbitrary: current)
    case Nil show ?case by simp
  next
    case (Cons c line)
    show ?case
    proof (cases "c = comma")
      case True
      moreover from Cons.prems have "dquote \<notin> set line" by auto
      ultimately show ?thesis using Cons.IH[of "[]"] loop_result[of line "[current]" "[]" False] by simp
    next
      case False
      moreover from Cons.prems have "c \<noteq> dquote" "dquote \<notin> set line" by auto
      ultimately show ?thesis using Cons.IH[of "current @ [c]"] by (simp add: split_Cons_other del: split.simps)
    qed
  qed
  from this[of "[]"] show "dquote \<notin> set line \<Longrightarrow> parseCSVLine line = split comma line"
    by (simp add: parseCSVLine_def)
qed

lemma remove_quotes_id: "dquote \<notin> set s \<Longrightarrow> remove_quotes s = s"
  by (auto simp: remove_quotes_def filter_id_conv)

subsection \<open>Header cells and white space around the line\<close>

lemma toLowerCase_append [simp]: "toLowerCase (a @ b) = toLowerCase a @ toLowerCase b"
  by (simp add: toLowerCase_def)

lemma blank_toLowerCase [simp]: "blank (toLowerCase s) \<longleftrightarrow> blank s"
  by (induction s) (simp_all add: toLowerCase_def)

lemma header_cells_prefix: "blank w \<Longrightarrow> header_cells (w @ h) = header_cells h"
proof -
  assume w: "blank w"
  then have b: "blank (toLowerCase w)" by simp
  then have c: "comma \<notin> set (toLowerCase w)" by (rule blank_no_comma)
  obtain x xs where x: "split comma (toLowerCase h) = x # xs"
    by (cases "split comma (toLowerCase h)") auto
  show ?thesis
    using b by (simp add: header_cells_def split_prefix[OF c] x)
qed

lemma header_cells_suffix: "blank w \<Longrightarrow> header_cells (h @ w) = header_cells h"
proof -
  assume w: "blank w"
  then have b: "blank (toLowerCase w)" by simp
  then have c: "comma \<notin> set (toLowerCase w)" by (rule blank_no_comma)
  have ne: "split comma (toLowerCase h) \<noteq> []" by simp
  have "map (\<lambda>h. remove_quotes (trim h)) (butlast xs @ [last xs @ toLowerCase w])
        = map (\<lambda>h. remove_quotes (trim h)) xs" if "xs \<noteq> []" for xs
  proof -
    from that have "map (\<lambda>h. remove_quotes (trim h)) xs
        = map (\<lambda>h. remove_quotes (trim h)) (butlast xs @ [last xs])" by simp
    also have "\<dots> = map (\<lambda>h. remove_quotes (trim h)) (butlast xs @ [last xs @ toLowerCase w])"
      using b by simp
    finally show ?thesis by simp
  qed
  from this[OF ne] show ?thesis
    by (simp add: header_cells_def split_suffix[OF c])
qed

lemma header_cells_ltrim [simp]: "header_cells (ltrim h) = header_cells h"
  using ltrim_decomp[of h] header_cells_prefix by metis

lemma header_cells_rtrim [simp]: "header_cells (rtrim h) = header_cells h"
  using rtrim_decomp[of h] header_cells_suffix by metis

subsection \<open>The loop over the rows\<close>

lemma parse_rows_row_records:
  "parse_rows ui di ls data = data @ concat (map (row_records ui di) ls)"
  by (induction ls arbitrary: data) (simp_all add: row_records_def Let_def)

lemma row_records_blank: "blank l \<Longrightarrow> row_records ui di l = []"
  by (simp add: row_records_def)

lemma nth_butlast_snoc:
  "xs \<noteq> [] \<Longrightarrow> i < length xs \<Longrightarrow>
   trim ((butlast xs @ [last xs @ w]) ! i) = (if i = length xs - 1 then trim (last xs @ w) else trim (xs ! i))"
  by (cases xs rule: rev_cases) (auto simp: nth_append)

lemma values_suffix:
  assumes "blank w" "i < length (parseCSVLine l)"
  shows "trim (parseCSVLine (l @ w) ! i) = trim (parseCSVLine l ! i)"
proof -
  have ne: "parseCSVLine l \<noteq> []" by simp
  show ?thesis
    using assms nth_butlast_snoc[OF ne assms(2), of w]
    by (auto simp: parseCSVLine_suffix last_conv_nth)
qed

lemma length_parseCSVLine_suffix: "blank w \<Longrightarrow> length (parseCSVLine (l @ w)) = length (parseCSVLine l)"
  by (simp add: parseCSVLine_suffix)

lemma row_records_suffix:
  assumes "blank w" "0 \<le> ui" "0 \<le> di"
  shows "row_records ui di (l @ w) = row_records ui di l"
proof (cases "int (length (parseCSVLine l)) > max ui di")
  case True
  with assms have "nat ui < length (parseCSVLine l)" "nat di < length (parseCSVLine l)" by auto
  with assms True show ?thesis
    by (simp add: row_records_def Let_def values_suffix length_parseCSVLine_suffix)
next
  case False
  show ?thesis
    unfolding row_records_def Let_def length_parseCSVLine_suffix[OF assms(1)]
      trim_append_blank[OF assms(1)]
    by (simp only: False if_False if_cancel)
qed

lemma row_records_rtrim: "0 \<le> ui \<Longrightarrow> 0 \<le> di \<Longrightarrow> row_records ui di (rtrim l) = row_records ui di l"
  using rtrim_decomp[of l] row_records_suffix by metis

lemma rtrim_lines_Nil_iff: "rtrim_lines ls = [] \<longleftrightarrow> (\<forall>l\<in>set ls. blank l)"
  by (induction ls) (auto split: list.splits)

lemma row_records_rtrim_lines:
  "0 \<le> ui \<Longrightarrow> 0 \<le> di \<Longrightarrow>
   concat (map (row_records ui di) (rtrim_lines ls)) = concat (map (row_records ui di) ls)"
proof (induction ls)
  case Nil show ?case by simp
next
  case (Cons l ls)
  show ?case
  proof (cases "rtrim_lines ls")
    case Nil
    then have "\<forall>l\<in>set ls. blank l" by (simp add: rtrim_lines_Nil_iff)
    then have "concat (map (row_records ui di) ls) = []" by (simp add: row_records_blank)
    with Nil Cons.prems show ?thesis by (simp add: row_records_blank row_records_rtrim)
  next
    case (Cons a as)
    with Cons.IH Cons.prems show ?thesis by simp
  qed
qed

subsection \<open>Trimming a text given by its lines\<close>

lemma blank_unlines: "blank (unlines ls) \<longleftrightarrow> (\<forall>l\<in>set ls. blank l)"
proof (induction ls)
  case Nil show ?case by (simp add: unlines_def)
next
  case (Cons l ls) then show ?case by (auto simp: unlines_Cons)
qed

lemma rtrim_unlines: "rtrim (unlines ls) = unlines (rtrim_lines ls)"
proof (induction ls)
  case Nil show ?case by (simp add: unlines_def rtrim_def)
next
  case (Cons l ls)
  show ?case
  proof (cases "rtrim_lines ls")
    case Nil
    then have b: "\<forall>l\<in>set ls. blank l" by (simp add: rtrim_lines_Nil_iff)
    then have "blank (unlines ls)" by (simp add: blank_unlines)
    then have "rtrim (unlines (l # ls)) = rtrim l"
      by (simp add: unlines_Cons rtrim_append)
    with Nil show ?thesis by (simp add: unlines_def)
  next
    case (Cons a as)
    then have nb: "\<not> blank (unlines ls)" using rtrim_lines_Nil_iff[of ls] by (auto simp: blank_unlines)
    then have ne: "ls \<noteq> []" by (auto simp: unlines_def)
    have "rtrim (unlines (l # ls)) = l @ newline # rtrim (unlines ls)"
      using nb ne rtrim_append[of l "newline # unlines ls"] rtrim_append[of "[newline]" "unlines ls"]
      by (simp add: unlines_Cons)
    with Cons Cons.IH show ?thesis by (simp add: unlines_Cons)
  qed
qed

lemma ltrim_unlines: "\<not> blank h \<Longrightarrow> ltrim (unlines (h # rows)) = unlines (ltrim h # rows)"
  by (simp add: unlines_Cons ltrim_append)

lemma no_newline_rtrim_lines: "\<forall>l\<in>set ls. no_newline l \<Longrightarrow> \<forall>l\<in>set (rtrim_lines ls). no_newline l"
proof (induction ls)
  case Nil show ?case by simp
next
  case (Cons l ls)
  then show ?case using set_rtrim[of l] by (cases "rtrim_lines ls") (auto simp: no_newline_def)
qed

lemma from_lines_Cons:
  "from_lines (h # rows) =
     (let ui = findIndex is_username (header_cells h); di = findIndex is_displayName (header_cells h)
      in if ui = - 1 \<or> di = - 1 then Inl MissingColumnsError
         else Inr (concat (map (row_records ui di) rows)))"
  by (simp add: from_lines_def Let_def parse_rows_row_records)

lemma findIndex_ge: "- 1 \<le> findIndex p xs"
  by (induction xs) (auto simp: Let_def)

lemma parseCSV_from_lines: "parseCSV text = from_lines (split newline (trim text))"
  by (simp add: parseCSV_def from_lines_def Let_def)

lemma parseCSV_unlines:
  assumes "\<not> blank h" "no_newline h" "\<forall>l\<in>set rows. no_newline l"
  shows "parseCSV (unlines (h # rows)) = from_lines (h # rows)"
proof -
  have nl: "\<forall>l\<in>set (ltrim h # rows). no_newline l"
    using assms set_ltrim[of h] by (auto simp: no_newline_def)
  have t: "trim (unlines (h # rows)) = unlines (rtrim_lines (ltrim h # rows))"
    using assms(1) by (simp add: trim_rtrim_ltrim ltrim_unlines rtrim_unlines)
  have ne: "rtrim_lines (ltrim h # rows) \<noteq> []"
    using assms(1) by (simp add: rtrim_lines_Nil_iff del: rtrim_lines.simps)
  have s: "split newline (trim (unlines (h # rows))) = rtrim_lines (ltrim h # rows)"
    unfolding t using ne no_newline_rtrim_lines[OF nl] by (rule split_unlines)
  have ge: "0 \<le> ui \<and> 0 \<le> di" if "\<not> (ui = - 1 \<or> di = - 1)" "ui = findIndex p xs" "di = findIndex q ys"
    for ui di :: int and p q and xs ys :: "string list"
    using that findIndex_ge[of p xs] findIndex_ge[of q ys] by auto
  show ?thesis
  proof (cases "rtrim_lines rows")
    case Nil
    then have "\<forall>l\<in>set rows. blank l" by (simp add: rtrim_lines_Nil_iff)
    then have "concat (map (row_records ui di) rows) = []" for ui di by (simp add: row_records_blank)
    with Nil assms(1) show ?thesis
      unfolding parseCSV_from_lines s by (simp add: from_lines_Cons Let_def)
  next
    case (Cons a as)
    have "from_lines (ltrim h # rtrim_lines rows) = from_lines (h # rows)"
      using ge[OF _ refl refl] row_records_rtrim_lines
      by (auto simp: from_lines_Cons Let_def)
    with Cons show ?thesis
      unfolding parseCSV_from_lines s by simp
  qed
qed

subsection \<open>Evaluating the parser step by step\<close>

lemma parseCSV_records:
  assumes "split newline (trim text) = h # rows"
    and "header_cells h = cells"
    and "findIndex is_username cells = ui" and "findIndex is_displayName cells = di"
    and "ui \<noteq> - 1" and "di \<noteq> - 1"
    and "parse_rows ui di rows [] = rs"
  shows "parseCSV text = Inr rs"
  using assms by (simp add: parseCSV_def Let_def)

lemma parseCSV_missing:
  assumes "split newline (trim text) = h # rows"
    and "header_cells h = cells"
    and "findIndex is_username cells = - 1 \<or> findIndex is_displayName cells = - 1"
  shows "parseCSV text = Inl MissingColumnsError"
  using assms by (auto simp add: parseCSV_def Let_def)

subsection \<open>Empty input\<close>

lemma errors_differ: "MissingColumnsError \<noteq> EmptyInputError"
  by code_simp

lemma parseCSV_never_EmptyInputError: "parseCSV text \<noteq> Inl EmptyInputError"
  using errors_differ by (simp add: parseCSV_def Let_def)

text \<open>
  Claim C1. The source tests \<^verbatim>\<open>lines.length === 0\<close> to raise "CSV file is empty", but
  \<^verbatim>\<open>split\<close> never returns an empty array: on the empty text and on a text of white space
  only, the header is the empty line and the parser raises the missing-columns error instead of
  the empty-input error the claim asks for.
\<close>

theorem empty_input_raises_missing_columns:
  "parseCSV [] = Inl MissingColumnsError
   \<and> parseCSV [CHR 0x20, CHR 0x09, newline] = Inl MissingColumnsError
   \<and> Inl MissingColumnsError \<noteq> (Inl EmptyInputError :: js_error + csv_record list)"
proof -
  have a: "parseCSV [] = Inl MissingColumnsError"
  proof (rule parseCSV_missing)
    show "split newline (trim []) = [] # []" by code_simp
    show "header_cells [] = [[]]" by code_simp
    show "findIndex is_username [[]] = - 1 \<or> findIndex is_displayName [[]] = - 1" by code_simp
  qed
  have b: "parseCSV [CHR 0x20, CHR 0x09, newline] = Inl MissingColumnsError"
  proof (rule parseCSV_missing)
    show "split newline (trim [CHR 0x20, CHR 0x09, newline]) = [] # []" by code_simp
    show "header_cells [] = [[]]" by code_simp
    show "findIndex is_username [[]] = - 1 \<or> findIndex is_displayName [[]] = - 1" by code_simp
  qed
  from a b errors_differ show ?thesis by simp
qed

subsection \<open>The tokenizer\<close>

lemma loop_foldl:
  "parseCSVLine_loop line result current q =
     (let st = foldl tok_step \<lparr>emitted = result, buffer = current, inside = q\<rparr> line
      in emitted st @ [buffer st])"
  by (induction line arbitrary: result current q) (simp_all add: tok_step_def Let_def)

text \<open>
  Claim C7. The tokenizer of the source computes what the scan described by the specification
  computes (a comma splits only outside quotes, a comma inside quotes goes to the buffer, a
  double quote toggles the flag and is not emitted, the last buffer is emitted even if empty),
  and the line \<^verbatim>\<open>"doe, john",John Doe\<close> gives exactly the two fields
  \<^verbatim>\<open>doe, john\<close> and \<^verbatim>\<open>John Doe\<close>.
\<close>

theorem tokenizer_follows_specification:
  "parseCSVLine line = spec_tokenize line
   \<and> parseCSVLine ([dquote] @ ''doe, john'' @ [dquote] @ '',John Doe'') = [''doe, john'', ''John Doe'']"
proof
  show "parseCSVLine line = spec_tokenize line"
    by (simp add: parseCSVLine_def spec_tokenize_def loop_foldl)
  show "parseCSVLine ([dquote] @ ''doe, john'' @ [dquote] @ '',John Doe'') = [''doe, john'', ''John Doe'']"
    by code_simp
qed

subsection \<open>The header is split at every comma\<close>

text \<open>
  Claim C2. The claim has the header tokenized by the quote-aware tokenizer. The source splits
  the header at every comma, quoted or not: the header \<^verbatim>\<open>"username,x",displayName\<close> gives
  three cells where the tokenizer gives two, so the file is accepted with the columns 0 and 2;
  and under the header \<^verbatim>\<open>"a,b",username,displayName\<close> the positions 2 and 3 are looked up
  in data rows that the tokenizer splits into three fields, so a correct row is dropped.
\<close>

theorem header_split_ignores_quotes:
  "header_cells ([dquote] @ ''username,x'' @ [dquote] @ '',displayName'') = [''username'', ''x'', ''displayname'']
   \<and> spec_header_cells ([dquote] @ ''username,x'' @ [dquote] @ '',displayName'') = [''username,x'', ''displayname'']
   \<and> parseCSV ([dquote] @ ''username,x'' @ [dquote] @ '',displayName'' @ [newline] @ ''a,b,c'')
       = Inr [\<lparr>username = ''a'', displayName = ''c''\<rparr>]
   \<and> parseCSV ([dquote] @ ''a,b'' @ [dquote] @ '',username,displayName'' @ [newline]
                @ [dquote] @ ''x,y'' @ [dquote] @ '',john,John Doe'') = Inr []"
proof -
  have a: "header_cells ([dquote] @ ''username,x'' @ [dquote] @ '',displayName'') = [''username'', ''x'', ''displayname'']"
    by code_simp
  have b: "spec_header_cells ([dquote] @ ''username,x'' @ [dquote] @ '',displayName'') = [''username,x'', ''displayname'']"
    by code_simp
  have c: "parseCSV ([dquote] @ ''username,x'' @ [dquote] @ '',displayName'' @ [newline] @ ''a,b,c'')
       = Inr [\<lparr>username = ''a'', displayName = ''c''\<rparr>]"
  proof (rule parseCSV_records)
    show "split newline (trim ([dquote] @ ''username,x'' @ [dquote] @ '',displayName'' @ [newline] @ ''a,b,c''))
          = ([dquote] @ ''username,x'' @ [dquote] @ '',displayName'') # [''a,b,c'']" by code_simp
    show "header_cells ([dquote] @ ''username,x'' @ [dquote] @ '',displayName'') = [''username'', ''x'', ''displayname'']"
      by (rule a)
    show "findIndex is_username [''username'', ''x'', ''displayname''] = 0" by code_simp
    show "findIndex is_displayName [''username'', ''x'', ''displayname''] = 2" by code_simp
    show "(0::int) \<noteq> - 1" by simp
    show "(2::int) \<noteq> - 1" by simp
    show "parse_rows 0 2 [''a,b,c''] [] = [\<lparr>username = ''a'', displayName = ''c''\<rparr>]" by code_simp
  qed
  have d: "parseCSV ([dquote] @ ''a,b'' @ [dquote] @ '',username,displayName'' @ [newline]
                @ [dquote] @ ''x,y'' @ [dquote] @ '',john,John Doe'') = Inr []"
  proof (rule parseCSV_records)
    show "split newline (trim ([dquote] @ ''a,b'' @ [dquote] @ '',username,displayName'' @ [newline]
                @ [dquote] @ ''x,y'' @ [dquote] @ '',john,John Doe''))
          = ([dquote] @ ''a,b'' @ [dquote] @ '',username,displayName'') # [[dquote] @ ''x,y'' @ [dquote] @ '',john,John Doe'']"
      by code_simp
    show "header_cells ([dquote] @ ''a,b'' @ [dquote] @ '',username,displayName'') = [''a'', ''b'', ''username'', ''displayname'']"
      by code_simp
    show "findIndex is_username [''a'', ''b'', ''username'', ''displayname''] = 2" by code_simp
    show "findIndex is_displayName [''a'', ''b'', ''username'', ''displayname''] = 3" by code_simp
    show "(2::int) \<noteq> - 1" by simp
    show "(3::int) \<noteq> - 1" by simp
    show "parse_rows 2 3 [[dquote] @ ''x,y'' @ [dquote] @ '',john,John Doe''] [] = []" by code_simp
  qed
  from a b c d show ?thesis by blast
qed

subsection \<open>The first matching index\<close>

lemma findIndex_minus_one_iff: "findIndex p xs = - 1 \<longleftrightarrow> (\<forall>x\<in>set xs. \<not> p x)"
proof (induction xs)
  case Nil show ?case by simp
next
  case (Cons x xs)
  from findIndex_ge[of p xs] have "findIndex p xs + 1 \<noteq> - 1" by simp
  with Cons show ?case by (simp add: Let_def)
qed

lemma findIndex_least:
  "i < length xs \<Longrightarrow> p (xs ! i) \<Longrightarrow> (\<forall>j<i. \<not> p (xs ! j)) \<Longrightarrow> findIndex p xs = int i"
proof (induction xs arbitrary: i)
  case Nil then show ?case by simp
next
  case (Cons x xs)
  show ?case
  proof (cases i)
    case 0 with Cons.prems show ?thesis by simp
  next
    case (Suc k)
    with Cons.prems have k: "k < length xs" "p (xs ! k)" by auto
    have "\<forall>j<k. \<not> p (xs ! j)"
    proof (intro allI impI)
      fix j assume "j < k"
      then have "Suc j < i" using Suc by simp
      with Cons.prems(3) have "\<not> p ((x # xs) ! Suc j)" by blast
      then show "\<not> p (xs ! j)" by simp
    qed
    with Cons.IH[OF k] have r: "findIndex p xs = int k" by simp
    from Cons.prems(3) Suc have "\<not> p x" by force
    with r Suc show ?thesis by (simp add: Let_def)
  qed
qed

subsection \<open>Header cells in terms of the raw cells\<close>

lemma split_toLowerCase: "split comma (toLowerCase s) = map toLowerCase (split comma s)"
proof (induction s)
  case Nil show ?case by (simp add: toLowerCase_def)
next
  case (Cons c s)
  obtain x xs where x: "split comma s = x # xs" by (cases "split comma s") auto
  with Cons show ?case by (simp add: toLowerCase_def)
qed

lemma dropWhile_ws_lower: "dropWhile js_whitespace (toLowerCase s) = toLowerCase (dropWhile js_whitespace s)"
  by (induction s) (simp_all add: toLowerCase_def)

lemma rev_toLowerCase: "rev (toLowerCase s) = toLowerCase (rev s)"
  by (simp add: toLowerCase_def rev_map)

lemma trim_toLowerCase: "trim (toLowerCase s) = toLowerCase (trim s)"
  by (simp add: trim_def dropWhile_ws_lower rev_toLowerCase)

lemma remove_quotes_toLowerCase: "remove_quotes (toLowerCase s) = toLowerCase (remove_quotes s)"
  by (induction s) (simp_all add: toLowerCase_def remove_quotes_def)

lemma header_cells_raw:
  "header_cells h = map (\<lambda>c. toLowerCase (remove_quotes (trim c))) (split comma h)"
  by (simp add: header_cells_def split_toLowerCase trim_toLowerCase remove_quotes_toLowerCase)

lemma username_resolved_iff:
  "findIndex is_username (header_cells h) \<noteq> - 1 \<longleftrightarrow> (\<exists>c\<in>set (split comma h). names_username c)"
  by (simp add: findIndex_minus_one_iff header_cells_raw is_username_def names_username_def)

lemma displayName_resolved_iff:
  "findIndex is_displayName (header_cells h) \<noteq> - 1 \<longleftrightarrow> (\<exists>c\<in>set (split comma h). names_displayName c)"
  by (simp add: findIndex_minus_one_iff header_cells_raw is_displayName_def names_displayName_def)

lemma header_cells_blank: "blank h \<Longrightarrow> header_cells h = [[]]"
proof -
  assume b: "blank h"
  then have "comma \<notin> set h" by (rule blank_no_comma)
  then have s: "split comma h = [h]" by (rule split_no_sep)
  from b have t: "trim h = []" by simp
  show ?thesis by (simp add: header_cells_raw s t remove_quotes_def toLowerCase_def)
qed

lemma resolved_not_blank:
  assumes "findIndex is_username (header_cells h) \<noteq> - 1"
  shows "\<not> blank h"
proof
  assume "blank h"
  then have "header_cells h = [[]]" by (rule header_cells_blank)
  with assms show False by (simp add: is_username_def)
qed

lemma text_as_unlines: "h @ newline # body = unlines (h # split newline body)"
  by (simp add: unlines_Cons unlines_split)

lemma no_newline_split: "\<forall>l\<in>set (split newline body). no_newline l"
  using split_lines_no_newline[of newline body] by (simp add: no_newline_def)

subsection \<open>Missing columns\<close>

lemma parseCSV_header_line:
  "parseCSV text =
     (if findIndex is_username (header_cells (header_line text)) = - 1
         \<or> findIndex is_displayName (header_cells (header_line text)) = - 1
      then Inl MissingColumnsError
      else Inr (parse_rows (findIndex is_username (header_cells (header_line text)))
                  (findIndex is_displayName (header_cells (header_line text)))
                  (drop 1 (split newline (trim text))) []))"
  by (simp add: parseCSV_def Let_def header_line_def)

lemma example_missing_columns:
  "parseCSV (''username,email'' @ [newline] @ ''foo,bar@x.com'') = Inl MissingColumnsError"
proof (rule parseCSV_missing)
  show "split newline (trim (''username,email'' @ [newline] @ ''foo,bar@x.com''))
        = ''username,email'' # [''foo,bar@x.com'']" by code_simp
  show "header_cells ''username,email'' = [''username'', ''email'']" by code_simp
  show "findIndex is_username [''username'', ''email''] = - 1
        \<or> findIndex is_displayName [''username'', ''email''] = - 1" by code_simp
qed

text \<open>
  Claim C5. For a text that is not blank, when no cell of the header line names the username
  role or no cell names the displayName role, whatever other cells there are, the parser raises
  the missing-columns error; its message holds both column names, \<^verbatim>\<open>username\<close> and
  \<^verbatim>\<open>displayName\<close>; and the text \<^verbatim>\<open>username,email\<close>, \<^verbatim>\<open>foo,bar@x.com\<close> raises it.
\<close>

theorem missing_column_raises_MissingColumnsError:
  assumes "\<not> blank text"
    and "\<not> (\<exists>c\<in>set (split comma (header_line text)). names_username c)
         \<or> \<not> (\<exists>c\<in>set (split comma (header_line text)). names_displayName c)"
  shows "parseCSV text = Inl MissingColumnsError
         \<and> sublist ''username'' (message MissingColumnsError)
         \<and> sublist ''displayName'' (message MissingColumnsError)
         \<and> parseCSV (''username,email'' @ [newline] @ ''foo,bar@x.com'') = Inl MissingColumnsError"
proof -
  from assms(2) have "findIndex is_username (header_cells (header_line text)) = - 1
      \<or> findIndex is_displayName (header_cells (header_line text)) = - 1"
    using username_resolved_iff[of "header_line text"] displayName_resolved_iff[of "header_line text"]
    by blast
  then have a: "parseCSV text = Inl MissingColumnsError"
    by (simp add: parseCSV_header_line)
  have b: "sublist ''username'' (message MissingColumnsError)"
    by (simp add: MissingColumnsError_def sublist_code)
  have c: "sublist ''displayName'' (message MissingColumnsError)"
    by (simp add: MissingColumnsError_def sublist_code)
  from a b c example_missing_columns show ?thesis by blast
qed

theorem missing_column_raises_MissingColumnsError_witness:
  "parseCSV (''id,username,email,phone'' @ [newline] @ ''1,foo,bar@x.com,555'') = Inl MissingColumnsError"
proof -
  let ?t = "''id,username,email,phone'' @ [newline] @ ''1,foo,bar@x.com,555''"
  have nb: "\<not> blank ?t" by code_simp
  have hl: "header_line ?t = ''id,username,email,phone''" by code_simp
  have cells: "split comma ''id,username,email,phone'' = [''id'', ''username'', ''email'', ''phone'']"
    by code_simp
  have n1: "\<not> names_displayName ''id''" by code_simp
  have n2: "\<not> names_displayName ''username''" by code_simp
  have n3: "\<not> names_displayName ''email''" by code_simp
  have n4: "\<not> names_displayName ''phone''" by code_simp
  have "\<not> (\<exists>c\<in>set (split comma (header_line ?t)). names_displayName c)"
    unfolding hl cells using n1 n2 n3 n4 by simp
  then have h2: "\<not> (\<exists>c\<in>set (split comma (header_line ?t)). names_username c)
         \<or> \<not> (\<exists>c\<in>set (split comma (header_line ?t)). names_displayName c)" by blast
  from missing_column_raises_MissingColumnsError[OF nb h2] show ?thesis by blast
qed

subsection \<open>Case-insensitive header matching\<close>

lemma example_mixed_case_header: "resolves ''Username,Display_Name'' 0 1"
proof -
  have c: "header_cells ''Username,Display_Name'' = [''username'', ''display_name'']" by code_simp
  have u: "findIndex is_username [''username'', ''display_name''] = 0" by code_simp
  have d: "findIndex is_displayName [''username'', ''display_name''] = 1" by code_simp
  show ?thesis unfolding resolves_def c u d by simp
qed

lemma parseCSV_resolved_succeeds:
  assumes u: "findIndex is_username (header_cells h) \<noteq> - 1"
    and d: "findIndex is_displayName (header_cells h) \<noteq> - 1"
    and nl: "no_newline h" "\<forall>l\<in>set rows. no_newline l"
  shows "parseCSV (unlines (h # rows)) =
           Inr (parse_rows (findIndex is_username (header_cells h))
                  (findIndex is_displayName (header_cells h)) rows [])"
proof -
  from u have nb: "\<not> blank h" by (rule resolved_not_blank)
  from parseCSV_unlines[OF nb nl] u d show ?thesis
    by (simp add: from_lines_def Let_def)
qed

lemma length_header_cells: "length (header_cells h) = length (split comma h)"
  by (simp add: header_cells_raw)

lemma is_username_header_cell:
  "j < length (split comma h) \<Longrightarrow> is_username (header_cells h ! j) = names_username (split comma h ! j)"
  by (simp add: header_cells_raw is_username_def names_username_def)

lemma is_displayName_header_cell:
  "j < length (split comma h) \<Longrightarrow>
   is_displayName (header_cells h ! j) = names_displayName (split comma h ! j)"
  by (simp add: header_cells_raw is_displayName_def names_displayName_def)

lemma username_position:
  assumes "i < length (split comma h)" and "names_username (split comma h ! i)"
    and "\<forall>j<i. \<not> names_username (split comma h ! j)"
  shows "findIndex is_username (header_cells h) = int i"
proof (rule findIndex_least)
  show "i < length (header_cells h)" using assms(1) by (simp add: length_header_cells)
  show "is_username (header_cells h ! i)" using assms(1,2) by (simp add: is_username_header_cell)
  show "\<forall>j<i. \<not> is_username (header_cells h ! j)"
  proof (intro allI impI)
    fix j assume j: "j < i"
    with assms(1) have "j < length (split comma h)" by simp
    with assms(3) j show "\<not> is_username (header_cells h ! j)"
      by (simp add: is_username_header_cell)
  qed
qed

lemma displayName_position:
  assumes "k < length (split comma h)" and "names_displayName (split comma h ! k)"
    and "\<forall>j<k. \<not> names_displayName (split comma h ! j)"
  shows "findIndex is_displayName (header_cells h) = int k"
proof (rule findIndex_least)
  show "k < length (header_cells h)" using assms(1) by (simp add: length_header_cells)
  show "is_displayName (header_cells h ! k)"
    using assms(1,2) by (simp add: is_displayName_header_cell)
  show "\<forall>j<k. \<not> is_displayName (header_cells h ! j)"
  proof (intro allI impI)
    fix j assume j: "j < k"
    with assms(1) have "j < length (split comma h)" by simp
    with assms(3) j show "\<not> is_displayName (header_cells h ! j)"
      by (simp add: is_displayName_header_cell)
  qed
qed

text \<open>
  Claim C6. A role resolves at the leftmost cell of the header line that names it: the
  cell which, trimmed and de-quoted, is \<^verbatim>\<open>username\<close> in any casing gives the username
  position, and the cell which is \<^verbatim>\<open>displayname\<close>, \<^verbatim>\<open>display_name\<close> or
  \<^verbatim>\<open>display name\<close> in any casing gives the displayName position. The parser then succeeds,
  whatever follows the header line, and reads the rows at these two positions. The header
  \<^verbatim>\<open>Username,Display_Name\<close> resolves to the columns 0 and 1.
\<close>

theorem header_matching_is_case_insensitive:
  assumes "i < length (split comma h)" and "names_username (split comma h ! i)"
    and "\<forall>j<i. \<not> names_username (split comma h ! j)"
    and "k < length (split comma h)" and "names_displayName (split comma h ! k)"
    and "\<forall>j<k. \<not> names_displayName (split comma h ! j)"
    and "no_newline h"
  shows "findIndex is_username (header_cells h) = int i
         \<and> findIndex is_displayName (header_cells h) = int k
         \<and> findIndex is_username (header_cells h) \<noteq> - 1
         \<and> findIndex is_displayName (header_cells h) \<noteq> - 1
         \<and> parseCSV (h @ newline # body) = Inr (parse_rows (int i) (int k) (split newline body) [])
         \<and> (\<exists>rs. parseCSV (h @ newline # body) = Inr rs)
         \<and> resolves ''Username,Display_Name'' 0 1"
proof -
  have u: "findIndex is_username (header_cells h) = int i"
    using assms(1,2,3) by (rule username_position)
  have d: "findIndex is_displayName (header_cells h) = int k"
    using assms(4,5,6) by (rule displayName_position)
  from u have u': "findIndex is_username (header_cells h) \<noteq> - 1" by simp
  from d have d': "findIndex is_displayName (header_cells h) \<noteq> - 1" by simp
  have p: "parseCSV (h @ newline # body) = Inr (parse_rows (int i) (int k) (split newline body) [])"
    unfolding text_as_unlines
    using parseCSV_resolved_succeeds[OF u' d' assms(7) no_newline_split[of body]]
    by (simp add: u d)
  from u d u' d' p example_mixed_case_header show ?thesis by blast
qed

theorem header_matching_is_case_insensitive_witness:
  "parseCSV ('' DISPLAY NAME ,id,'' @ [dquote] @ ''UserName'' @ [dquote] @ [newline] @ ''John,1,john'')
     = Inr [\<lparr>username = ''john'', displayName = ''John''\<rparr>]"
proof -
  let ?h = "'' DISPLAY NAME ,id,'' @ [dquote] @ ''UserName'' @ [dquote]"
  have cells: "split comma ?h = ['' DISPLAY NAME '', ''id'', [dquote] @ ''UserName'' @ [dquote]]"
    by code_simp
  have n0: "\<not> names_username '' DISPLAY NAME ''" by code_simp
  have n1: "\<not> names_username ''id''" by code_simp
  have 1: "2 < length (split comma ?h)" unfolding cells by simp
  have 2: "names_username (split comma ?h ! 2)" unfolding cells by code_simp
  have 3: "\<forall>j<2. \<not> names_username (split comma ?h ! j)"
  proof (intro allI impI)
    fix j :: nat assume "j < 2"
    then have "j = 0 \<or> j = 1" by auto
    then show "\<not> names_username (split comma ?h ! j)" unfolding cells using n0 n1 by auto
  qed
  have 4: "0 < length (split comma ?h)" unfolding cells by simp
  have 5: "names_displayName (split comma ?h ! 0)" unfolding cells by code_simp
  have 6: "\<forall>j<0. \<not> names_displayName (split comma ?h ! j)" by simp
  have 7: "no_newline ?h" by code_simp
  have b: "split newline ''John,1,john'' = [''John,1,john'']" by code_simp
  have r: "parse_rows 2 0 [''John,1,john''] [] = [\<lparr>username = ''john'', displayName = ''John''\<rparr>]"
    by code_simp
  from header_matching_is_case_insensitive[OF 1 2 3 4 5 6 7, of "''John,1,john''"]
  show ?thesis unfolding b using r by simp
qed

subsection \<open>Several cells for one role\<close>

text \<open>
  Claim C10. When several header cells match a role, the leftmost one gives the role's
  position: if \<open>i\<close> is the least index of a cell equal to \<^verbatim>\<open>username\<close> and \<open>k\<close> the least
  index of a cell matching the displayName role, the header resolves to \<open>i\<close> and \<open>k\<close> and the
  parser succeeds, reading the rows at these two positions.
\<close>

theorem leftmost_matching_header_cell_wins:
  assumes "i < length (header_cells h)" and "is_username (header_cells h ! i)"
    and "\<forall>j<i. \<not> is_username (header_cells h ! j)"
    and "k < length (header_cells h)" and "is_displayName (header_cells h ! k)"
    and "\<forall>j<k. \<not> is_displayName (header_cells h ! j)"
    and "no_newline h" and "\<forall>l\<in>set rows. no_newline l"
  shows "resolves h i k \<and> parseCSV (unlines (h # rows)) = Inr (parse_rows (int i) (int k) rows [])"
proof -
  have u: "findIndex is_username (header_cells h) = int i"
    using assms(1,2,3) by (rule findIndex_least)
  have d: "findIndex is_displayName (header_cells h) = int k"
    using assms(4,5,6) by (rule findIndex_least)
  have "parseCSV (unlines (h # rows)) = Inr (parse_rows (int i) (int k) rows [])"
    using parseCSV_resolved_succeeds[OF _ _ assms(7,8)] u d by simp
  with u d show ?thesis by (simp add: resolves_def)
qed

theorem leftmost_matching_header_cell_wins_witness:
  "parseCSV (unlines [''username,username,display_name,display name'', ''a,b,c,d''])
     = Inr [\<lparr>username = ''a'', displayName = ''c''\<rparr>]"
proof -
  let ?h = "''username,username,display_name,display name''"
  have cells: "header_cells ?h = [''username'', ''username'', ''display_name'', ''display name'']"
    by code_simp
  have 1: "0 < length (header_cells ?h)" unfolding cells by simp
  have 2: "is_username (header_cells ?h ! 0)" unfolding cells by code_simp
  have 3: "\<forall>j<0. \<not> is_username (header_cells ?h ! j)" by simp
  have 4: "2 < length (header_cells ?h)" unfolding cells by simp
  have 5: "is_displayName (header_cells ?h ! 2)" unfolding cells by code_simp
  have n0: "\<not> is_displayName ''username''" by code_simp
  have 6: "\<forall>j<2. \<not> is_displayName (header_cells ?h ! j)"
  proof (intro allI impI)
    fix j :: nat assume "j < 2"
    then have "j = 0 \<or> j = 1" by auto
    then show "\<not> is_displayName (header_cells ?h ! j)" unfolding cells using n0 by auto
  qed
  have 7: "no_newline ?h" by code_simp
  have 8: "\<forall>l\<in>set [''a,b,c,d'']. no_newline l" by code_simp
  have r: "parse_rows 0 2 [''a,b,c,d''] [] = [\<lparr>username = ''a'', displayName = ''c''\<rparr>]" by code_simp
  from leftmost_matching_header_cell_wins[OF 1 2 3 4 5 6 7 8] r show ?thesis by simp
qed

subsection \<open>Rows that are malformed and rows that are not\<close>

lemma malformed_row_records:
  assumes "malformed_row ui di l"
  shows "row_records (int ui) (int di) l = []"
proof (cases "length (parseCSVLine l) \<le> max ui di")
  case True
  then have "\<not> int (length (parseCSVLine l)) > max (int ui) (int di)" by auto
  then show ?thesis by (simp add: row_records_def Let_def)
next
  case False
  with assms have "trim (parseCSVLine l ! ui) = [] \<or> trim (parseCSVLine l ! di) = []"
    by (simp add: malformed_row_def Let_def del: trim_Nil_iff)
  then have "remove_quotes (trim (parseCSVLine l ! ui)) = []
             \<or> remove_quotes (trim (parseCSVLine l ! di)) = []"
    by (auto simp: remove_quotes_def simp del: trim_Nil_iff)
  then show ?thesis by (auto simp: row_records_def Let_def simp del: trim_Nil_iff)
qed

lemma blank_malformed: "blank l \<Longrightarrow> malformed_row ui di l"
proof (cases "1 \<le> max ui di")
  case True
  moreover assume "blank l"
  ultimately show ?thesis by (simp add: malformed_row_def parseCSVLine_blank Let_def)
next
  case False
  then have "ui = 0" "di = 0" by auto
  moreover assume "blank l"
  ultimately show ?thesis by (simp add: malformed_row_def parseCSVLine_blank Let_def)
qed

lemma value_no_dquote: "i < length (parseCSVLine l) \<Longrightarrow> remove_quotes (trim (parseCSVLine l ! i)) = trim (parseCSVLine l ! i)"
proof (rule remove_quotes_id)
  assume "i < length (parseCSVLine l)"
  then have "parseCSVLine l ! i \<in> set (parseCSVLine l)" by simp
  then have "dquote \<notin> set (parseCSVLine l ! i)" by (rule parseCSVLine_no_dquote)
  with set_trim[of "parseCSVLine l ! i"] show "dquote \<notin> set (trim (parseCSVLine l ! i))" by blast
qed

lemma wellformed_row_records:
  assumes "\<not> malformed_row ui di l"
  shows "row_records (int ui) (int di) l = [record_at ui di l]"
proof -
  from assms have "\<not> blank l" using blank_malformed by blast
  then have nb: "trim l \<noteq> []" by simp
  from assms have len: "max ui di < length (parseCSVLine l)"
    by (auto simp: malformed_row_def Let_def split: if_splits)
  then have len': "int (length (parseCSVLine l)) > max (int ui) (int di)" by auto
  from len have lu: "ui < length (parseCSVLine l)" and ld: "di < length (parseCSVLine l)" by auto
  from assms len have ne: "trim (parseCSVLine l ! ui) \<noteq> []" "trim (parseCSVLine l ! di) \<noteq> []"
    by (auto simp: malformed_row_def Let_def simp del: trim_Nil_iff split: if_splits)
  show ?thesis
    unfolding row_records_def Let_def record_at_def
    using nb len' ne by (simp add: value_no_dquote[OF lu] value_no_dquote[OF ld] del: trim_Nil_iff)
qed

lemma concat_row_records:
  "concat (map (row_records (int ui) (int di)) rows) = valid_records ui di rows"
  by (induction rows) (simp_all add: valid_records_def malformed_row_records wellformed_row_records)

lemma parseCSV_valid_records:
  assumes "resolves h ui di" and "no_newline h" and "\<forall>l\<in>set rows. no_newline l"
  shows "parseCSV (unlines (h # rows)) = Inr (valid_records ui di rows)"
proof -
  from assms(1) have u: "findIndex is_username (header_cells h) = int ui"
    and d: "findIndex is_displayName (header_cells h) = int di" by (simp_all add: resolves_def)
  from u have u': "findIndex is_username (header_cells h) \<noteq> - 1" by simp
  from d have d': "findIndex is_displayName (header_cells h) \<noteq> - 1" by simp
  show ?thesis
    using parseCSV_resolved_succeeds[OF u' d' assms(2,3)]
    by (simp add: u d parse_rows_row_records concat_row_records)
qed

lemma valid_records_append: "valid_records ui di (a @ b) = valid_records ui di a @ valid_records ui di b"
  by (simp add: valid_records_def)

lemma valid_records_Cons:
  "valid_records ui di (l # ls) =
     (if malformed_row ui di l then valid_records ui di ls else record_at ui di l # valid_records ui di ls)"
  by (simp add: valid_records_def)

lemma valid_records_all_malformed:
  "\<forall>l\<in>set rows. malformed_row ui di l \<Longrightarrow> valid_records ui di rows = []"
  by (simp add: valid_records_def)

text \<open>
  Claim C4. Under a header that resolves, the parser returns the records of the rows that
  are not malformed and never fails: where a row \<open>good\<close> that is not malformed stands, the
  result holds its record between the records of the rows before and after it; with a
  malformed row \<open>bad\<close> in its place (too few fields, or an empty value in a target column) the
  result is the same without that one record, as if the row were absent.
\<close>

theorem malformed_rows_are_skipped:
  assumes "resolves h ui di"
    and "\<forall>l\<in>set (h # pre @ good # bad # post). no_newline l"
    and "malformed_row ui di bad" and "\<not> malformed_row ui di good"
  shows "parseCSV (unlines (h # pre @ good # post))
           = Inr (valid_records ui di pre @ record_at ui di good # valid_records ui di post)
         \<and> parseCSV (unlines (h # pre @ bad # post))
           = Inr (valid_records ui di pre @ valid_records ui di post)
         \<and> parseCSV (unlines (h # pre @ post))
           = Inr (valid_records ui di pre @ valid_records ui di post)"
proof -
  from assms(2) have h: "no_newline h" by simp
  from assms(2) have 1: "\<forall>l\<in>set (pre @ good # post). no_newline l" by auto
  from assms(2) have 2: "\<forall>l\<in>set (pre @ bad # post). no_newline l" by auto
  from assms(2) have 3: "\<forall>l\<in>set (pre @ post). no_newline l" by auto
  show ?thesis
    using parseCSV_valid_records[OF assms(1) h 1] parseCSV_valid_records[OF assms(1) h 2]
      parseCSV_valid_records[OF assms(1) h 3] assms(3,4)
    by (simp add: valid_records_append valid_records_Cons)
qed

theorem malformed_rows_are_skipped_witness:
  "parseCSV (unlines [''id,username,display name'', ''1,ann,Ann A'', ''2,bob,Bob B'', ''3,cy,Cy C''])
     = Inr [\<lparr>username = ''ann'', displayName = ''Ann A''\<rparr>, \<lparr>username = ''bob'', displayName = ''Bob B''\<rparr>,
            \<lparr>username = ''cy'', displayName = ''Cy C''\<rparr>]
   \<and> parseCSV (unlines [''id,username,display name'', ''1,ann,Ann A'', ''2,bob'', ''3,cy,Cy C''])
     = Inr [\<lparr>username = ''ann'', displayName = ''Ann A''\<rparr>, \<lparr>username = ''cy'', displayName = ''Cy C''\<rparr>]"
proof -
  let ?h = "''id,username,display name''"
  have cells: "header_cells ?h = [''id'', ''username'', ''display name'']" by code_simp
  have u: "findIndex is_username [''id'', ''username'', ''display name''] = 1" by code_simp
  have d: "findIndex is_displayName [''id'', ''username'', ''display name''] = 2" by code_simp
  have r: "resolves ?h 1 2" unfolding resolves_def cells u d by simp
  have nl: "\<forall>l\<in>set (?h # [''1,ann,Ann A''] @ ''2,bob,Bob B'' # ''2,bob'' # [''3,cy,Cy C'']). no_newline l"
    by code_simp
  have bad: "malformed_row 1 2 ''2,bob''" by code_simp
  have good: "\<not> malformed_row 1 2 ''2,bob,Bob B''" by code_simp
  have pre: "valid_records 1 2 [''1,ann,Ann A''] = [\<lparr>username = ''ann'', displayName = ''Ann A''\<rparr>]"
    by code_simp
  have post: "valid_records 1 2 [''3,cy,Cy C''] = [\<lparr>username = ''cy'', displayName = ''Cy C''\<rparr>]"
    by code_simp
  have rec: "record_at 1 2 ''2,bob,Bob B'' = \<lparr>username = ''bob'', displayName = ''Bob B''\<rparr>"
    by code_simp
  from malformed_rows_are_skipped[OF r nl bad good] show ?thesis
    unfolding pre post rec by simp
qed

text \<open>
  Claim C8. When the header resolves and every data row is malformed, the parser succeeds
  with the empty list of records, which is neither of the two failures; and a text on which
  the parser fails yields no list of records at all.
\<close>

theorem all_rows_malformed_gives_empty_result:
  assumes "resolves h ui di" and "no_newline h" and "\<forall>l\<in>set rows. no_newline l"
    and "\<forall>l\<in>set rows. malformed_row ui di l"
  shows "parseCSV (unlines (h # rows)) = Inr []
         \<and> parseCSV (unlines (h # rows)) \<noteq> Inl EmptyInputError
         \<and> parseCSV (unlines (h # rows)) \<noteq> Inl MissingColumnsError
         \<and> (\<forall>text e. parseCSV text = Inl e \<longrightarrow> (\<forall>rs. parseCSV text \<noteq> Inr rs))"
  using parseCSV_valid_records[OF assms(1,2,3)] valid_records_all_malformed[OF assms(4)]
  by simp

theorem all_rows_malformed_gives_empty_result_witness:
  "parseCSV (unlines [''username,displayName'', ''ann'', '',Bob'', ''cy,  '', '''']) = Inr []"
proof -
  let ?h = "''username,displayName''"
  have cells: "header_cells ?h = [''username'', ''displayname'']" by code_simp
  have u: "findIndex is_username [''username'', ''displayname''] = 0" by code_simp
  have d: "findIndex is_displayName [''username'', ''displayname''] = 1" by code_simp
  have r: "resolves ?h 0 1" unfolding resolves_def cells u d by simp
  have h: "no_newline ?h" by code_simp
  have nl: "\<forall>l\<in>set [''ann'', '',Bob'', ''cy,  '', '''']. no_newline l" by code_simp
  have m: "\<forall>l\<in>set [''ann'', '',Bob'', ''cy,  '', '''']. malformed_row 0 1 l" by code_simp
  from all_rows_malformed_gives_empty_result[OF r h nl m] show ?thesis by simp
qed

subsection \<open>Well-formed two-column files\<close>

lemma loop_cell:
  assumes "cell_ok c"
  shows "parseCSVLine_loop (cell_text c @ rest) result [] False
         = parseCSVLine_loop rest result (cell_value c) False"
proof (cases c)
  case (Plain s)
  with assms show ?thesis using loop_plain[of s rest result "[]" False] by simp
next
  case (Quoted s)
  with assms have "dquote \<notin> set s" by simp
  from loop_inside[OF this, of "dquote # rest" result "[]"] Quoted show ?thesis by simp
qed

lemma parseCSVLine_row_line:
  assumes "row_ok r"
  shows "parseCSVLine (row_line r) = [cell_value (fst r), cell_value (snd r)]"
proof -
  from assms have u: "cell_ok (fst r)" and d: "cell_ok (snd r)" by (simp_all add: row_ok_def)
  have "parseCSVLine (row_line r)
        = parseCSVLine_loop (comma # cell_text (snd r) @ []) [] (cell_value (fst r)) False"
    using loop_cell[OF u, of "comma # cell_text (snd r)" "[]"]
    by (simp add: parseCSVLine_def row_line_def)
  also have "\<dots> = parseCSVLine_loop (cell_text (snd r) @ []) [cell_value (fst r)] [] False"
    by simp
  also have "\<dots> = [cell_value (fst r), cell_value (snd r)]"
    unfolding loop_cell[OF d] by simp
  finally show ?thesis .
qed

lemma cell_ok_value: "cell_ok c \<Longrightarrow> trim (cell_value c) \<noteq> []"
  by (cases c) simp_all

lemma cell_ok_no_newline: "cell_ok c \<Longrightarrow> newline \<notin> set (cell_text c)"
  by (cases c) simp_all

lemma row_ok_no_newline: "row_ok r \<Longrightarrow> no_newline (row_line r)"
  by (simp add: row_ok_def row_line_def no_newline_def cell_ok_no_newline)

lemma row_ok_not_malformed: "row_ok r \<Longrightarrow> \<not> malformed_row 0 1 (row_line r)"
  by (simp add: malformed_row_def parseCSVLine_row_line Let_def row_ok_def cell_ok_value
      del: trim_Nil_iff)

lemma row_ok_record_at: "row_ok r \<Longrightarrow> record_at 0 1 (row_line r) = row_record r"
  by (simp add: record_at_def parseCSVLine_row_line row_record_def)

lemma valid_records_rows:
  "\<forall>r\<in>set rows. row_ok r \<Longrightarrow> valid_records 0 1 (map row_line rows) = map row_record rows"
proof (induction rows)
  case Nil
  show ?case by (simp add: valid_records_def)
next
  case (Cons r rows)
  then have ok: "row_ok r" and IH: "valid_records 0 1 (map row_line rows) = map row_record rows"
    by simp_all
  have "valid_records 0 1 (map row_line (r # rows))
        = record_at 0 1 (row_line r) # valid_records 0 1 (map row_line rows)"
    using row_ok_not_malformed[OF ok] by (simp only: list.map valid_records_Cons if_False)
  then show ?case unfolding IH row_ok_record_at[OF ok] by simp
qed

lemma standard_header_resolves: "resolves ''username,displayName'' 0 1"
proof -
  have c: "header_cells ''username,displayName'' = [''username'', ''displayname'']" by code_simp
  have u: "findIndex is_username [''username'', ''displayname''] = 0" by code_simp
  have d: "findIndex is_displayName [''username'', ''displayname''] = 1" by code_simp
  show ?thesis unfolding resolves_def c u d by simp
qed

lemma example_two_rows:
  "parseCSV (''username,displayName'' @ [newline] @ ''john_doe,John Doe'' @ [newline] @ ''jane_smith,Jane Smith'')
     = Inr [\<lparr>username = ''john_doe'', displayName = ''John Doe''\<rparr>,
            \<lparr>username = ''jane_smith'', displayName = ''Jane Smith''\<rparr>]"
proof (rule parseCSV_records)
  show "split newline (trim (''username,displayName'' @ [newline] @ ''john_doe,John Doe'' @ [newline] @ ''jane_smith,Jane Smith''))
        = ''username,displayName'' # [''john_doe,John Doe'', ''jane_smith,Jane Smith'']" by code_simp
  show "header_cells ''username,displayName'' = [''username'', ''displayname'']" by code_simp
  show "findIndex is_username [''username'', ''displayname''] = 0" by code_simp
  show "findIndex is_displayName [''username'', ''displayname''] = 1" by code_simp
  show "(0::int) \<noteq> - 1" by simp
  show "(1::int) \<noteq> - 1" by simp
  show "parse_rows 0 1 [''john_doe,John Doe'', ''jane_smith,Jane Smith''] []
        = [\<lparr>username = ''john_doe'', displayName = ''John Doe''\<rparr>,
           \<lparr>username = ''jane_smith'', displayName = ''Jane Smith''\<rparr>]" by code_simp
qed

lemma example_formatOutput:
  "formatOutput [\<lparr>username = ''john_doe'', displayName = ''John Doe''\<rparr>,
                 \<lparr>username = ''jane_smith'', displayName = ''Jane Smith''\<rparr>]
     = ''john_doe@John Doe,'' @ [newline] @ ''jane_smith@Jane Smith''"
  by code_simp

lemma formatOutput_Nil: "formatOutput [] = []"
  by (simp add: formatOutput_def)

lemma formatOutput_single: "formatOutput [x] = username x @ ''@'' @ displayName x"
  by (simp add: formatOutput_def)

lemma formatOutput_Cons:
  "formatOutput (x # y # data)
     = username x @ ''@'' @ displayName x @ '','' @ [newline] @ formatOutput (y # data)"
  by (simp add: formatOutput_def)

text \<open>
  Claim C3. For a well-formed two-column file, the header \<^verbatim>\<open>username,displayName\<close> followed
  by N data rows with a non-blank value in both columns, the parser returns exactly N records,
  one per row and in the order of the rows, each holding the two trimmed values; the file
  \<^verbatim>\<open>username,displayName\<close>, \<^verbatim>\<open>john_doe,John Doe\<close>, \<^verbatim>\<open>jane_smith,Jane Smith\<close> gives the
  two records of the specification. Formatting writes each record as its username, an at sign
  and its displayName, and puts a comma and a line feed between two records, and nothing
  before the first or after the last: no records give the empty text, one record gives its
  own text, and a record followed by others gives its text, the separator and the formatted
  rest. For the two records of the example this is \<^verbatim>\<open>john_doe@John Doe\<close>, comma, line feed,
  \<^verbatim>\<open>jane_smith@Jane Smith\<close>.
\<close>

theorem wellformed_file_gives_one_record_per_row:
  assumes "\<forall>r\<in>set rows. row_ok r"
  shows "parseCSV (csv_text rows) = Inr (map row_record rows)
         \<and> length (map row_record rows) = length rows
         \<and> parseCSV (''username,displayName'' @ [newline] @ ''john_doe,John Doe'' @ [newline]
                      @ ''jane_smith,Jane Smith'')
             = Inr [\<lparr>username = ''john_doe'', displayName = ''John Doe''\<rparr>,
                    \<lparr>username = ''jane_smith'', displayName = ''Jane Smith''\<rparr>]
         \<and> formatOutput [\<lparr>username = ''john_doe'', displayName = ''John Doe''\<rparr>,
                          \<lparr>username = ''jane_smith'', displayName = ''Jane Smith''\<rparr>]
             = ''john_doe@John Doe,'' @ [newline] @ ''jane_smith@Jane Smith''
         \<and> formatOutput [] = []
         \<and> formatOutput [x] = username x @ ''@'' @ displayName x
         \<and> formatOutput (x # y # data)
             = username x @ ''@'' @ displayName x @ '','' @ [newline] @ formatOutput (y # data)"
proof -
  have h: "no_newline ''username,displayName''" by code_simp
  from assms have nl: "\<forall>l\<in>set (map row_line rows). no_newline l"
    by (simp add: row_ok_no_newline)
  have "parseCSV (csv_text rows) = Inr (map row_record rows)"
    unfolding csv_text_def
    using parseCSV_valid_records[OF standard_header_resolves h nl] valid_records_rows[OF assms]
    by simp
  with example_two_rows example_formatOutput formatOutput_Nil formatOutput_single[of x]
    formatOutput_Cons[of x y data]
  show ?thesis by simp
qed

theorem wellformed_file_gives_one_record_per_row_witness:
  "parseCSV (''username,displayName'' @ [newline] @ [dquote] @ ''doe, john'' @ [dquote] @ '',John Doe''
             @ [newline] @ ''jane_smith, Jane Smith '')
     = Inr [\<lparr>username = ''doe, john'', displayName = ''John Doe''\<rparr>,
            \<lparr>username = ''jane_smith'', displayName = ''Jane Smith''\<rparr>]
   \<and> formatOutput [\<lparr>username = ''doe, john'', displayName = ''John Doe''\<rparr>,
                    \<lparr>username = ''jane_smith'', displayName = ''Jane Smith''\<rparr>]
     = ''doe, john@John Doe,'' @ [newline] @ ''jane_smith@Jane Smith''"
proof -
  let ?rows = "[(Quoted ''doe, john'', Plain ''John Doe''), (Plain ''jane_smith'', Plain '' Jane Smith '')]"
  let ?a = "\<lparr>username = ''doe, john'', displayName = ''John Doe''\<rparr>"
  let ?b = "\<lparr>username = ''jane_smith'', displayName = ''Jane Smith''\<rparr>"
  have ok: "\<forall>r\<in>set ?rows. row_ok r" by code_simp
  have t: "csv_text ?rows = ''username,displayName'' @ [newline] @ [dquote] @ ''doe, john'' @ [dquote] @ '',John Doe''
             @ [newline] @ ''jane_smith, Jane Smith ''" by code_simp
  have r: "map row_record ?rows = [?a, ?b]" by code_simp
  note w1 = wellformed_file_gives_one_record_per_row[OF ok, of ?a ?b "[]"]
  note w2 = wellformed_file_gives_one_record_per_row[OF ok, of ?b ?b "[]"]
  from w1 have p: "parseCSV (csv_text ?rows) = Inr (map row_record ?rows)" by blast
  from w1 have f1: "formatOutput [?a, ?b]
      = username ?a @ ''@'' @ displayName ?a @ '','' @ [newline] @ formatOutput [?b]" by blast
  from w2 have f2: "formatOutput [?b] = username ?b @ ''@'' @ displayName ?b" by blast
  have f: "formatOutput [?a, ?b] = ''doe, john@John Doe,'' @ [newline] @ ''jane_smith@Jane Smith''"
    unfolding f1 f2 by simp
  from p f show ?thesis unfolding t r by simp
qed

end
